theory Spec2Isabelle
  imports Main
begin

section \<open>The batched-write layer of bolt-factory over a Bolt store\<close>

text \<open>
  The development follows \<^verbatim>\<open>batching.go\<close> (the types \<^verbatim>\<open>WriteOperation\<close> and
  \<^verbatim>\<open>BoltBatch\<close> with \<^verbatim>\<open>Add\<close>, \<^verbatim>\<open>execOpsByBucket\<close>, \<^verbatim>\<open>Execute\<close> and
  \<^verbatim>\<open>ExecuteConcurrent\<close>) and the database file (\<^verbatim>\<open>BoltDatabase.Get\<close>).
  Byte slices are character lists; a Go map is a partial function with a finite domain.
\<close>

subsection \<open>Constants and data\<close>

type_synonym bytes = string

definition OpSet :: string where
  "OpSet = ''set''"

definition OpDelete :: string where
  "OpDelete = ''delete''"

definition MAX_CONCURRENT_OPERATIONS :: nat where
  "MAX_CONCURRENT_OPERATIONS = 10"

definition MAX_SEQUENTIAL_OPERATIONS :: nat where
  "MAX_SEQUENTIAL_OPERATIONS = 5000"

text \<open>
  \<^verbatim>\<open>WriteOperation\<close>: the field \<^verbatim>\<open>Value\<close> is a pointer to a byte slice, so \<open>None\<close>
  is the nil pointer. \<^verbatim>\<open>Op\<close> is a plain string: any string can be stored there, not
  only the two constants.
\<close>

record WriteOperation =
  Bucket :: bytes
  Key :: bytes
  Value :: "bytes option"
  Op :: string

text \<open>
  The errors that the modelled code can return. The first two are the
  \<^verbatim>\<open>errors.New\<close> values of \<^verbatim>\<open>batching.go\<close> ("max sequential operations reached" and
  "value is nil"); the others are the errors of the Bolt library on the paths the
  repository calls.
\<close>

datatype error =
    CapacityExceeded
  | ValueMissing
  | ErrDatabaseNotOpen
  | ErrBucketNameRequired
  | ErrKeyRequired
  | ErrKeyTooLarge
  | ErrValueTooLarge

subsection \<open>The Bolt store as the repository uses it\<close>

text \<open>
  The Bolt library is an external dependency. Its state is abstracted to its content: a
  database is open or closed and holds top-level buckets, each a finite map from keys to
  values (nested buckets are never created by the repository and are left out). A
  writable transaction works on a copy of the buckets; \<^verbatim>\<open>db.Batch\<close> installs the copy
  when the closure returns nil and discards it otherwise. Input/output failures of the
  commit itself are outside the model.
\<close>

type_synonym bucket = "bytes \<rightharpoonup> bytes"

type_synonym Tx = "bytes \<rightharpoonup> bucket"

record DB =
  opened :: bool
  buckets :: Tx

definition MaxKeySize :: nat where
  "MaxKeySize = 32768"

definition MaxValueSize :: nat where
  "MaxValueSize = 2 ^ 31 - 2"

text \<open>\<^verbatim>\<open>tx.Bucket(name)\<close>: nil when there is no such bucket.\<close>

definition Tx_Bucket :: "Tx \<Rightarrow> bytes \<Rightarrow> bucket option" where
  "Tx_Bucket tx name = tx name"

text \<open>\<^verbatim>\<open>tx.CreateBucketIfNotExists(name)\<close>: the bucket's content and the transaction
  with the bucket in it, or the error for an empty name.\<close>

definition CreateBucketIfNotExists :: "Tx \<Rightarrow> bytes \<Rightarrow> error + (bucket \<times> Tx)" where
  "CreateBucketIfNotExists tx name =
     (if name = [] then Inl ErrBucketNameRequired
      else case tx name of
             Some bk \<Rightarrow> Inr (bk, tx)
           | None \<Rightarrow> Inr (Map.empty, tx(name \<mapsto> Map.empty)))"

text \<open>\<^verbatim>\<open>bucket.Put(key, value)\<close>, \<^verbatim>\<open>bucket.Delete(key)\<close> and \<^verbatim>\<open>bucket.Get(key)\<close>.
  Deleting an absent key is not an error.\<close>

definition Put :: "bucket \<Rightarrow> bytes \<Rightarrow> bytes \<Rightarrow> error option \<times> bucket" where
  "Put bk key val =
     (if key = [] then (Some ErrKeyRequired, bk)
      else if length key > MaxKeySize then (Some ErrKeyTooLarge, bk)
      else if length val > MaxValueSize then (Some ErrValueTooLarge, bk)
      else (None, bk(key \<mapsto> val)))"

definition Delete :: "bucket \<Rightarrow> bytes \<Rightarrow> error option \<times> bucket" where
  "Delete bk key = (None, bk(key := None))"

definition Bucket_Get :: "bucket \<Rightarrow> bytes \<Rightarrow> bytes option" where
  "Bucket_Get bk key = bk key"

text \<open>
  \<^verbatim>\<open>db.Batch(fn)\<close>: on an open database the closure runs in a writable transaction that
  is committed when the closure returns nil and rolled back when it returns an error.
  \<^verbatim>\<open>db.View(fn)\<close> runs the closure in a read-only transaction; the closure's second
  component stands for the variables it assigns, \<open>init\<close> for their value when the
  closure never runs.
\<close>

definition Batch :: "DB \<Rightarrow> (Tx \<Rightarrow> error option \<times> Tx) \<Rightarrow> error option \<times> DB" where
  "Batch db fn =
     (if \<not> opened db then (Some ErrDatabaseNotOpen, db)
      else case fn (buckets db) of
             (Some err, tx') \<Rightarrow> (Some err, db)
           | (None, tx') \<Rightarrow> (None, db\<lparr>buckets := tx'\<rparr>))"

definition View :: "DB \<Rightarrow> 'r \<Rightarrow> (Tx \<Rightarrow> error option \<times> 'r) \<Rightarrow> error option \<times> 'r" where
  "View db init fn =
     (if \<not> opened db then (Some ErrDatabaseNotOpen, init) else fn (buckets db))"

subsection \<open>BoltDatabase.Get\<close>

text \<open>The pair is (result, err) as in the source; \<open>None\<close> is nil in both places.\<close>

definition Get :: "DB \<Rightarrow> string \<Rightarrow> string \<Rightarrow> bytes option \<times> error option" where
  "Get db bucketName key =
     (case View db None
             (\<lambda>tx. case Tx_Bucket tx bucketName of
                     None \<Rightarrow> (None, None)
                   | Some bk \<Rightarrow> (None, Bucket_Get bk key))
      of (err, result) \<Rightarrow> (result, err))"

subsection \<open>BoltBatch\<close>

text \<open>
  \<^verbatim>\<open>BoltBatch.ops\<close> maps a bucket name to its queued operations. The mutex is not
  modelled: each method runs alone, as the lock makes it. The database behind the
  pointer \<^verbatim>\<open>boltdb\<close> is passed to the executing functions and returned by them; a nil
  pointer is not an input here.
\<close>

record BoltBatch =
  ops :: "string \<rightharpoonup> WriteOperation list"

definition NewBoltBatch :: BoltBatch where
  "NewBoltBatch = \<lparr>ops = Map.empty\<rparr>"

text \<open>\<^verbatim>\<open>len(m)\<close> of a Go map: its number of keys.\<close>

definition len_map :: "('k \<rightharpoonup> 'v) \<Rightarrow> nat" where
  "len_map m = card (dom m)"

text \<open>\<^verbatim>\<open>Add\<close> returns its error and the batch after the call. Reading a missing key of a
  Go map gives the nil slice, and appending to it gives a one-element slice.\<close>

definition Add :: "BoltBatch \<Rightarrow> WriteOperation \<Rightarrow> error option \<times> BoltBatch" where
  "Add b op =
     (if len_map (ops b) \<ge> MAX_SEQUENTIAL_OPERATIONS then (Some CapacityExceeded, b)
      else (None, b\<lparr>ops := (ops b)(Bucket op \<mapsto>
              (case ops b (Bucket op) of None \<Rightarrow> [] | Some l \<Rightarrow> l) @ [op])\<rparr>))"

text \<open>
  The loop of \<^verbatim>\<open>execOpsByBucket\<close>: both cases of the switch return, so the loop goes on
  only past an operation whose kind is neither "set" nor "delete".
\<close>

fun execOps_loop :: "bucket \<Rightarrow> WriteOperation list \<Rightarrow> error option \<times> bucket" where
  "execOps_loop bk [] = (None, bk)"
| "execOps_loop bk (op # rest) =
     (if Op op = OpSet then
        (case Value op of
           None \<Rightarrow> (Some ValueMissing, bk)
         | Some v \<Rightarrow> Put bk (Key op) v)
      else if Op op = OpDelete then Delete bk (Key op)
      else execOps_loop bk rest)"

definition execOpsByBucket :: "Tx \<Rightarrow> string \<Rightarrow> WriteOperation list \<Rightarrow> error option \<times> Tx" where
  "execOpsByBucket tx bucket os =
     (case CreateBucketIfNotExists tx bucket of
        Inl err \<Rightarrow> (Some err, tx)
      | Inr (boltBucket, tx') \<Rightarrow>
          (case execOps_loop boltBucket os of
             (err, boltBucket') \<Rightarrow> (err, tx'(bucket \<mapsto> boltBucket'))))"

text \<open>
  \<^verbatim>\<open>Execute\<close>: Go leaves the order of \<^verbatim>\<open>range\<close> over a map open, so the order is an
  argument: \<open>order\<close> lists the keys as the loop meets them (\<open>range_order\<close>). A name
  that is not a key has no iteration. The result is the error, the batch and the
  database after the call.
\<close>

definition range_order :: "('k \<rightharpoonup> 'v) \<Rightarrow> 'k list \<Rightarrow> bool" where
  "range_order m order \<longleftrightarrow> distinct order \<and> set order = dom m"

text \<open>The call that both executing methods make for one bucket:
  \<^verbatim>\<open>b.boltdb.db.Batch(func(tx) error { return b.execOpsByBucket(tx, bucket, ops) })\<close>.\<close>

abbreviation partition_tx :: "DB \<Rightarrow> string \<Rightarrow> WriteOperation list \<Rightarrow> error option \<times> DB" where
  "partition_tx db bucket os \<equiv> Batch db (\<lambda>tx. execOpsByBucket tx bucket os)"

fun Execute_loop ::
  "(string \<rightharpoonup> WriteOperation list) \<Rightarrow> DB \<Rightarrow> string list \<Rightarrow> error option \<times> DB" where
  "Execute_loop m db [] = (None, db)"
| "Execute_loop m db (bucket # rest) =
     (case m bucket of
        None \<Rightarrow> Execute_loop m db rest
      | Some os \<Rightarrow>
          (case partition_tx db bucket os of
             (Some err, db') \<Rightarrow> (Some err, db')
           | (None, db') \<Rightarrow> Execute_loop m db' rest))"

definition Execute :: "BoltBatch \<Rightarrow> DB \<Rightarrow> string list \<Rightarrow> error option \<times> BoltBatch \<times> DB" where
  "Execute b db order =
     (case Execute_loop (ops b) db order of (err, db') \<Rightarrow> (err, b, db'))"

subsection \<open>ExecuteConcurrent\<close>

text \<open>
  \<^verbatim>\<open>ExecuteConcurrent\<close> starts one goroutine per bucket through an \<^verbatim>\<open>errgroup.Group\<close>
  and waits for all of them. Each goroutine runs the same four actions in order:
  \<^item> \<^verbatim>\<open>semaphore <- struct{}{}\<close>: a send on the buffered channel, possible only while the
    channel holds fewer elements than its capacity;
  \<^item> \<^verbatim>\<open>db.Batch(...)\<close> with the closure of its bucket (Bolt serialises writable
    transactions, so the call is one action on the store);
  \<^item> the deferred \<^verbatim>\<open><-semaphore\<close>: a receive, possible only while the channel is not empty;
  \<^item> the return into the group: a non-nil error is stored by \<^verbatim>\<open>errOnce\<close> when none is
    stored yet, and the group's counter of running goroutines goes down by one.
  A goroutine is therefore in one of five places. The state of the call holds the places
  of all goroutines, the number of elements in the channel, the group's counter and
  error, and the store. The field \<open>finished\<close> is a history of the returns into the
  group, in order, with the error each goroutine brought; the code has no such variable.
\<close>

datatype task = Waiting | Running | Returned "error option" | Released "error option" | Done

record conc_state =
  batch :: BoltBatch
  tasks :: "string \<rightharpoonup> task"
  semaphore :: nat
  wg :: nat
  store :: DB
  gerr :: "error option"
  finished :: "(string \<times> error option) list"

text \<open>\<^verbatim>\<open>make(chan struct{}, min(MAX_CONCURRENT_OPERATIONS, len(b.ops)))\<close>: the capacity.\<close>

definition semaphore_cap :: "BoltBatch \<Rightarrow> nat" where
  "semaphore_cap b = min MAX_CONCURRENT_OPERATIONS (len_map (ops b))"

text \<open>
  The state from which the executions start: every goroutine is before its send (one
  that the loop has not started yet has taken no action either), and the counter holds
  one \<^verbatim>\<open>Add(1)\<close> per key of \<^verbatim>\<open>b.ops\<close>, as it does when the loop is over and Wait is
  called.
\<close>

definition conc_init :: "BoltBatch \<Rightarrow> DB \<Rightarrow> conc_state" where
  "conc_init b db =
     \<lparr>batch = b, tasks = (\<lambda>t. map_option (\<lambda>_. Waiting) (ops b t)), semaphore = 0,
      wg = len_map (ops b), store = db, gerr = None, finished = []\<rparr>"

text \<open>
  The next action of the goroutine of bucket \<open>t\<close>; \<open>None\<close> when it cannot move: it is
  blocked on the channel, it has finished, or there is no such goroutine.
\<close>

definition task_step :: "conc_state \<Rightarrow> string \<Rightarrow> conc_state option" where
  "task_step s t =
     (case tasks s t of
        None \<Rightarrow> None
      | Some Waiting \<Rightarrow>
          if semaphore s < semaphore_cap (batch s)
          then Some (s\<lparr>tasks := (tasks s)(t \<mapsto> Running), semaphore := semaphore s + 1\<rparr>)
          else None
      | Some Running \<Rightarrow>
          (case ops (batch s) t of
             None \<Rightarrow> None
           | Some os \<Rightarrow>
               (case partition_tx (store s) t os of
                  (err, db') \<Rightarrow> Some (s\<lparr>tasks := (tasks s)(t \<mapsto> Returned err), store := db'\<rparr>)))
      | Some (Returned err) \<Rightarrow>
          if 0 < semaphore s
          then Some (s\<lparr>tasks := (tasks s)(t \<mapsto> Released err), semaphore := semaphore s - 1\<rparr>)
          else None
      | Some (Released err) \<Rightarrow>
          if 0 < wg s
          then Some (s\<lparr>tasks := (tasks s)(t \<mapsto> Done), wg := wg s - 1,
                       gerr := (case gerr s of None \<Rightarrow> err | Some e \<Rightarrow> Some e),
                       finished := finished s @ [(t, err)]\<rparr>)
          else None
      | Some Done \<Rightarrow> None)"

text \<open>
  A schedule names, action by action, the goroutine that moves next; every interleaving
  of the goroutines is a schedule. \<open>run_schedule\<close> is \<open>None\<close> when the schedule asks a
  goroutine to move that cannot.
\<close>

fun run_schedule :: "conc_state \<Rightarrow> string list \<Rightarrow> conc_state option" where
  "run_schedule s [] = Some s"
| "run_schedule s (t # ts) =
     (case task_step s t of None \<Rightarrow> None | Some s' \<Rightarrow> run_schedule s' ts)"

text \<open>
  \<^verbatim>\<open>wg.Wait()\<close> returns the group's error when the group's counter is zero. The result of
  \<^verbatim>\<open>ExecuteConcurrent\<close> under a schedule is the error, the batch and the store at that
  moment; \<open>None\<close> when the schedule is not a complete execution.
\<close>

definition ExecuteConcurrent ::
  "BoltBatch \<Rightarrow> DB \<Rightarrow> string list \<Rightarrow> (error option \<times> BoltBatch \<times> DB) option" where
  "ExecuteConcurrent b db sched =
     (case run_schedule (conc_init b db) sched of
        None \<Rightarrow> None
      | Some s \<Rightarrow> if wg s = 0 then Some (gerr s, batch s, store s) else None)"

subsection \<open>Notions used to state the properties\<close>

text \<open>An operation whose kind is one of the two that the switch knows.\<close>

definition is_op :: "WriteOperation \<Rightarrow> bool" where
  "is_op op \<longleftrightarrow> Op op = OpSet \<or> Op op = OpDelete"

text \<open>
  The replay that the specification describes, for comparison with the code: every
  operation is applied in insertion order, a Set overwrites its key, a Delete removes it.
\<close>

fun replay_all :: "bucket \<Rightarrow> WriteOperation list \<Rightarrow> bucket" where
  "replay_all bk [] = bk"
| "replay_all bk (op # rest) =
     replay_all
       (if Op op = OpSet then (case Value op of Some v \<Rightarrow> bk(Key op \<mapsto> v) | None \<Rightarrow> bk)
        else if Op op = OpDelete then bk(Key op := None)
        else bk) rest"

text \<open>The effect of one operation is present in a bucket.\<close>

definition op_applied :: "WriteOperation \<Rightarrow> bucket \<Rightarrow> bool" where
  "op_applied op bk =
     (if Op op = OpSet then Value op \<noteq> None \<and> bk (Key op) = Value op
      else if Op op = OpDelete then bk (Key op) = None
      else True)"

text \<open>A sequence of calls of \<^verbatim>\<open>Add\<close>: the errors of the calls and the batch at the end.\<close>

fun Add_all :: "BoltBatch \<Rightarrow> WriteOperation list \<Rightarrow> error option list \<times> BoltBatch" where
  "Add_all b [] = ([], b)"
| "Add_all b (op # rest) =
     (case Add b op of (err, b') \<Rightarrow>
        (case Add_all b' rest of (errs, b'') \<Rightarrow> (err # errs, b'')))"

text \<open>The number of queued operations, over all buckets.\<close>

definition total_ops :: "BoltBatch \<Rightarrow> nat" where
  "total_ops b = (\<Sum>k\<in>dom (ops b). case ops b k of None \<Rightarrow> 0 | Some l \<Rightarrow> length l)"

text \<open>
  The transaction of one bucket, taken alone on a store: its error, and the content of
  the bucket after it (the committed content when it succeeds, the old content when it
  fails). A name without queued operations has no transaction.
\<close>

definition tx_error :: "DB \<Rightarrow> (string \<rightharpoonup> WriteOperation list) \<Rightarrow> string \<Rightarrow> error option" where
  "tx_error db m t = (case m t of None \<Rightarrow> None | Some os \<Rightarrow> fst (partition_tx db t os))"

definition tx_bucket :: "DB \<Rightarrow> (string \<rightharpoonup> WriteOperation list) \<Rightarrow> string \<Rightarrow> bucket option" where
  "tx_bucket db m t =
     (case m t of None \<Rightarrow> buckets db t | Some os \<Rightarrow> buckets (snd (partition_tx db t os)) t)"

text \<open>The first error of a sequence of results.\<close>

fun first_error :: "error option list \<Rightarrow> error option" where
  "first_error [] = None"
| "first_error (None # es) = first_error es"
| "first_error (Some e # es) = Some e"

text \<open>
  In a state of \<^verbatim>\<open>ExecuteConcurrent\<close>: the goroutines that hold a slot of the channel (from
  their send to their receive), those whose transaction is in flight, and those that
  have not returned into the group.
\<close>

definition holders :: "conc_state \<Rightarrow> string set" where
  "holders s = {t. tasks s t = Some Running \<or> (\<exists>e. tasks s t = Some (Returned e))}"

definition in_flight :: "conc_state \<Rightarrow> string set" where
  "in_flight s = {t. tasks s t = Some Running}"

definition pending :: "conc_state \<Rightarrow> string set" where
  "pending s = {t. \<exists>x. tasks s t = Some x \<and> x \<noteq> Done}"

text \<open>The order in which the goroutines returned into the group under a schedule.\<close>

definition completion_order :: "BoltBatch \<Rightarrow> DB \<Rightarrow> string list \<Rightarrow> string list" where
  "completion_order b db sched =
     (case run_schedule (conc_init b db) sched of
        None \<Rightarrow> []
      | Some s \<Rightarrow> map fst (finished s))"

text \<open>The invariants of the states of \<^verbatim>\<open>ExecuteConcurrent\<close>.\<close>

definition inv_struct :: "BoltBatch \<Rightarrow> conc_state \<Rightarrow> bool" where
  "inv_struct b s \<longleftrightarrow> batch s = b \<and> dom (tasks s) = dom (ops b)"

definition inv_count :: "conc_state \<Rightarrow> bool" where
  "inv_count s \<longleftrightarrow>
     semaphore s = card (holders s) \<and> semaphore s \<le> semaphore_cap (batch s)
     \<and> wg s = card (pending s)"

fun task_view ::
  "DB \<Rightarrow> DB \<Rightarrow> string \<Rightarrow> WriteOperation list \<Rightarrow> (string \<times> error option) list \<Rightarrow> task \<Rightarrow> bool" where
  "task_view db sdb t os fin Waiting = (buckets sdb t = buckets db t)"
| "task_view db sdb t os fin Running = (buckets sdb t = buckets db t)"
| "task_view db sdb t os fin (Returned e) =
     (e = fst (partition_tx db t os) \<and> buckets sdb t = buckets (snd (partition_tx db t os)) t)"
| "task_view db sdb t os fin (Released e) =
     (e = fst (partition_tx db t os) \<and> buckets sdb t = buckets (snd (partition_tx db t os)) t)"
| "task_view db sdb t os fin Done =
     (buckets sdb t = buckets (snd (partition_tx db t os)) t
      \<and> (t, fst (partition_tx db t os)) \<in> set fin)"

definition inv_store :: "BoltBatch \<Rightarrow> DB \<Rightarrow> conc_state \<Rightarrow> bool" where
  "inv_store b db s \<longleftrightarrow>
     opened (store s) = opened db
     \<and> (\<forall>t. case ops b t of
              None \<Rightarrow> buckets (store s) t = buckets db t
            | Some os \<Rightarrow> (case tasks s t of
                            None \<Rightarrow> False
                          | Some x \<Rightarrow> task_view db (store s) t os (finished s) x))
     \<and> gerr s = first_error (map snd (finished s))
     \<and> (\<forall>p\<in>set (finished s). \<exists>os. ops b (fst p) = Some os
                                   \<and> snd p = fst (partition_tx db (fst p) os))"

definition inv_log :: "conc_state \<Rightarrow> bool" where
  "inv_log s \<longleftrightarrow>
     distinct (map fst (finished s))
     \<and> set (map fst (finished s)) = {t. tasks s t = Some Done}"

text \<open>The actions that a goroutine still has to take, and their sum over a state.\<close>

fun steps_left :: "task option \<Rightarrow> nat" where
  "steps_left None = 0"
| "steps_left (Some Waiting) = 4"
| "steps_left (Some Running) = 3"
| "steps_left (Some (Returned e)) = 2"
| "steps_left (Some (Released e)) = 1"
| "steps_left (Some Done) = 0"

definition remaining :: "conc_state \<Rightarrow> nat" where
  "remaining s = (\<Sum>t\<in>dom (tasks s). steps_left (tasks s t))"

subsection \<open>Concrete inputs\<close>

definition set_op :: "bytes \<Rightarrow> bytes \<Rightarrow> bytes \<Rightarrow> WriteOperation" where
  "set_op bucket key val = \<lparr>Bucket = bucket, Key = key, Value = Some val, Op = OpSet\<rparr>"

definition empty_db :: DB where
  "empty_db = \<lparr>opened = True, buckets = Map.empty\<rparr>"

definition two_sets :: BoltBatch where
  "two_sets = \<lparr>ops = [''users'' \<mapsto> [set_op ''users'' ''u1'' ''A'', set_op ''users'' ''u1'' ''B'']]\<rparr>"

text \<open>A batch that tracks \<open>n\<close> buckets, named b, bb, bbb, ..., with one operation each.\<close>

definition many_buckets :: "nat \<Rightarrow> BoltBatch" where
  "many_buckets n =
     \<lparr>ops = map_of (map (\<lambda>i. (replicate (Suc i) CHR ''b'',
                               [set_op (replicate (Suc i) CHR ''b'') ''k'' ''v'']))
                     [0..<n])\<rparr>"

definition nil_set_op :: "bytes \<Rightarrow> bytes \<Rightarrow> WriteOperation" where
  "nil_set_op bucket key = \<lparr>Bucket = bucket, Key = key, Value = None, Op = OpSet\<rparr>"

text \<open>Three buckets; the operation queued for b is a Set without a value.\<close>

definition three_buckets :: BoltBatch where
  "three_buckets =
     \<lparr>ops = [''a'' \<mapsto> [set_op ''a'' ''k'' ''v''],
             ''b'' \<mapsto> [nil_set_op ''b'' ''k''],
             ''c'' \<mapsto> [set_op ''c'' ''k'' ''v'']]\<rparr>"

text \<open>Two buckets; the operation queued for a is a Set without a value.\<close>

definition two_buckets :: BoltBatch where
  "two_buckets =
     \<lparr>ops = [''a'' \<mapsto> [nil_set_op ''a'' ''k''], ''b'' \<mapsto> [set_op ''b'' ''k'' ''v'']]\<rparr>"

section \<open>Properties\<close>

subsection \<open>Within one bucket's transaction\<close>

text \<open>
  What the loop does with a queue: nothing when no operation has the kind set or delete;
  otherwise the Put or Delete of the first such operation (or the missing-value error),
  and nothing else.
\<close>

lemma execOps_loop_runs_first_op:
  "execOps_loop bk os =
     (case List.find is_op os of
        None \<Rightarrow> (None, bk)
      | Some op \<Rightarrow>
          if Op op = OpSet
          then (case Value op of None \<Rightarrow> (Some ValueMissing, bk) | Some v \<Rightarrow> Put bk (Key op) v)
          else Delete bk (Key op))"
  by (induction os) (auto simp: is_op_def)

lemma set_op_sel [simp]:
  "Bucket (set_op bn k v) = bn" "Key (set_op bn k v) = k"
  "Value (set_op bn k v) = Some v" "Op (set_op bn k v) = OpSet"
  by (simp_all add: set_op_def)

lemma Put_small [simp]:
  "key \<noteq> [] \<Longrightarrow> length key \<le> 32768 \<Longrightarrow> length val \<le> 2147483646 \<Longrightarrow>
   Put bk key val = (None, bk(key \<mapsto> val))"
  by (simp add: Put_def MaxKeySize_def MaxValueSize_def)

text \<open>
  Claim C1, evaluated on the code. The two Set operations on users/u1 (first "A", then
  "B") are accepted by Add into one bucket; Execute on the empty open store succeeds and
  leaves users/u1 = "A", whereas replaying both operations in insertion order gives
  users/u1 = "B": the second Set is lost.
\<close>

theorem C1_Execute_keeps_first_write:
  "Add_all NewBoltBatch [set_op ''users'' ''u1'' ''A'', set_op ''users'' ''u1'' ''B'']
     = ([None, None], two_sets)
   \<and> range_order (ops two_sets) [''users'']
   \<and> Execute two_sets empty_db [''users'']
     = (None, two_sets, \<lparr>opened = True, buckets = [''users'' \<mapsto> [''u1'' \<mapsto> ''A'']]\<rparr>)
   \<and> replay_all Map.empty [set_op ''users'' ''u1'' ''A'', set_op ''users'' ''u1'' ''B'']
     = [''u1'' \<mapsto> ''B'']
   \<and> [''u1'' \<mapsto> ''A''] \<noteq> [''u1'' \<mapsto> ''B'']"
proof -
  have add: "Add_all NewBoltBatch [set_op ''users'' ''u1'' ''A'', set_op ''users'' ''u1'' ''B'']
     = ([None, None], two_sets)"
    by (simp add: Add_def NewBoltBatch_def two_sets_def len_map_def MAX_SEQUENTIAL_OPERATIONS_def)
  have rng: "range_order (ops two_sets) [''users'']"
    by (simp add: range_order_def two_sets_def)
  have exe: "Execute two_sets empty_db [''users'']
     = (None, two_sets, \<lparr>opened = True, buckets = [''users'' \<mapsto> [''u1'' \<mapsto> ''A'']]\<rparr>)"
    by (simp add: Execute_def two_sets_def empty_db_def Batch_def execOpsByBucket_def
        CreateBucketIfNotExists_def)
  have rep: "replay_all Map.empty [set_op ''users'' ''u1'' ''A'', set_op ''users'' ''u1'' ''B'']
     = [''u1'' \<mapsto> ''B'']"
    by simp
  have neq: "[''u1'' \<mapsto> ''A''] \<noteq> [''u1'' \<mapsto> ''B'']"
    by (simp add: fun_eq_iff)
  from add rng exe rep neq show ?thesis by (intro conjI)
qed

text \<open>
  Claim C2, evaluated on the code. Two Set operations on users/u1 (first "A", then "B")
  are queued for the bucket users. The transaction closure returns nil, and so does
  \<^verbatim>\<open>db.Batch\<close> with it on the empty open store; the bucket then holds the effect of the
  first operation and not the effect of the last one, which the claim says is executed
  to completion.
\<close>

theorem C2_last_operation_not_executed:
  "1 < length [set_op ''users'' ''u1'' ''A'', set_op ''users'' ''u1'' ''B'']
   \<and> execOpsByBucket Map.empty ''users''
        [set_op ''users'' ''u1'' ''A'', set_op ''users'' ''u1'' ''B'']
     = (None, [''users'' \<mapsto> [''u1'' \<mapsto> ''A'']])
   \<and> partition_tx empty_db ''users''
        [set_op ''users'' ''u1'' ''A'', set_op ''users'' ''u1'' ''B'']
     = (None, \<lparr>opened = True, buckets = [''users'' \<mapsto> [''u1'' \<mapsto> ''A'']]\<rparr>)
   \<and> op_applied (set_op ''users'' ''u1'' ''A'') [''u1'' \<mapsto> ''A'']
   \<and> \<not> op_applied (last [set_op ''users'' ''u1'' ''A'', set_op ''users'' ''u1'' ''B''])
          [''u1'' \<mapsto> ''A'']"
  by (simp add: execOpsByBucket_def CreateBucketIfNotExists_def op_applied_def Batch_def
      empty_db_def)

subsection \<open>Add and the capacity guard\<close>

lemma Add_one_bucket:
  "Bucket op = k \<Longrightarrow> Add \<lparr>ops = [k \<mapsto> l]\<rparr> op = (None, \<lparr>ops = [k \<mapsto> l @ [op]]\<rparr>)"
  by (simp add: Add_def len_map_def MAX_SEQUENTIAL_OPERATIONS_def)

lemma Add_all_one_bucket:
  "Bucket op = k \<Longrightarrow>
   Add_all \<lparr>ops = [k \<mapsto> l]\<rparr> (replicate n op) =
     (replicate n None, \<lparr>ops = [k \<mapsto> l @ replicate n op]\<rparr>)"
proof (induction n arbitrary: l)
  case 0
  then show ?case by simp
next
  case (Suc n)
  have "Add_all \<lparr>ops = [k \<mapsto> l]\<rparr> (op # replicate n op) =
          (None # replicate n None, \<lparr>ops = [k \<mapsto> (l @ [op]) @ replicate n op]\<rparr>)"
    by (simp only: Add_all.simps Add_one_bucket[OF Suc.prems] Suc.IH[OF Suc.prems] prod.case)
  then show ?case by (simp only: replicate_Suc append_assoc append_Cons append_Nil)
qed

lemma Add_first: "Add NewBoltBatch op = (None, \<lparr>ops = [Bucket op \<mapsto> [op]]\<rparr>)"
  by (simp add: Add_def NewBoltBatch_def len_map_def MAX_SEQUENTIAL_OPERATIONS_def)

lemma Add_all_fresh:
  "Add_all NewBoltBatch (replicate (Suc n) op) =
     (replicate (Suc n) None, \<lparr>ops = [Bucket op \<mapsto> replicate (Suc n) op]\<rparr>)"
proof -
  have "Add_all NewBoltBatch (op # replicate n op) =
          (None # replicate n None, \<lparr>ops = [Bucket op \<mapsto> [op] @ replicate n op]\<rparr>)"
    by (simp only: Add_all.simps Add_first Add_all_one_bucket[OF refl] prod.case)
  then show ?thesis by (simp only: replicate_Suc append_Cons append_Nil)
qed

text \<open>
  Batches built by Add have finitely many buckets, and never more than
  \<open>MAX_SEQUENTIAL_OPERATIONS\<close> of them: this is the bound that the guard of Add keeps.
\<close>

lemma NewBoltBatch_finite: "finite (dom (ops NewBoltBatch))"
  by (simp add: NewBoltBatch_def)

lemma Add_finite: "finite (dom (ops b)) \<Longrightarrow> finite (dom (ops (snd (Add b op))))"
  by (simp add: Add_def)

lemma Add_all_finite: "finite (dom (ops b)) \<Longrightarrow> finite (dom (ops (snd (Add_all b os))))"
proof (induction os arbitrary: b)
  case Nil
  then show ?case by simp
next
  case (Cons op os)
  from Cons.IH[OF Add_finite[OF Cons.prems, of op]]
  show ?case by (auto split: prod.splits)
qed

lemma Add_bucket_bound:
  assumes "finite (dom (ops b))" and "len_map (ops b) \<le> MAX_SEQUENTIAL_OPERATIONS"
  shows "len_map (ops (snd (Add b op))) \<le> MAX_SEQUENTIAL_OPERATIONS"
  using assms by (auto simp: Add_def len_map_def card_insert_if)

lemma total_ops_one_bucket: "total_ops \<lparr>ops = [k \<mapsto> l]\<rparr> = length l"
  by (simp add: total_ops_def)

lemma len_map_many_buckets: "len_map (ops (many_buckets n)) = n"
proof -
  let ?name = "\<lambda>i. replicate (Suc i) CHR ''b''"
  have "dom (ops (many_buckets n)) = ?name ` {0..<n}"
    by (simp add: many_buckets_def dom_map_of_conv_image_fst image_image)
  moreover have "inj_on ?name {0..<n}"
    by (rule inj_onI) (metis length_replicate nat.inject)
  ultimately show ?thesis by (simp add: len_map_def card_image)
qed

text \<open>
  Claim C3, evaluated on the code. Starting from the empty batch, 5001 calls of Add with
  an operation for the same bucket all return nil, and the batch then holds 5001
  operations: the guard of Add compares the number of buckets, here 1, with the limit.
\<close>

theorem C3_Add_accepts_5001_operations:
  "Add_all NewBoltBatch (replicate (Suc 5000) (set_op ''users'' ''u1'' ''A''))
     = (replicate (Suc 5000) None,
        \<lparr>ops = [''users'' \<mapsto> replicate (Suc 5000) (set_op ''users'' ''u1'' ''A'')]\<rparr>)
   \<and> total_ops \<lparr>ops = [''users'' \<mapsto> replicate (Suc 5000) (set_op ''users'' ''u1'' ''A'')]\<rparr>
     = 5001
   \<and> len_map [''users'' \<mapsto> replicate (Suc 5000) (set_op ''users'' ''u1'' ''A'')] = 1
   \<and> MAX_SEQUENTIAL_OPERATIONS < 5001"
proof -
  have "Bucket (set_op ''users'' ''u1'' ''A'') = ''users''"
    by simp
  with Add_all_fresh[of 5000 "set_op ''users'' ''u1'' ''A''"]
  have "Add_all NewBoltBatch (replicate (Suc 5000) (set_op ''users'' ''u1'' ''A''))
     = (replicate (Suc 5000) None,
        \<lparr>ops = [''users'' \<mapsto> replicate (Suc 5000) (set_op ''users'' ''u1'' ''A'')]\<rparr>)"
    by (simp only:)
  moreover
  have "total_ops \<lparr>ops = [''users'' \<mapsto> replicate (Suc 5000) (set_op ''users'' ''u1'' ''A'')]\<rparr>
     = 5001"
    by (simp only: total_ops_one_bucket length_replicate)
  moreover
  have "len_map [''users'' \<mapsto> replicate (Suc 5000) (set_op ''users'' ''u1'' ''A'')] = 1"
    by (simp add: len_map_def del: replicate_Suc)
  moreover
  have "MAX_SEQUENTIAL_OPERATIONS < 5001"
    by (simp add: MAX_SEQUENTIAL_OPERATIONS_def)
  ultimately show ?thesis by (intro conjI)
qed

text \<open>
  Claim C4: when the number of buckets tracked by the batch has reached
  \<open>MAX_SEQUENTIAL_OPERATIONS\<close>, Add returns the capacity error and the batch after the
  call is the batch before it: no bucket's sequence has changed and the number of queued
  operations is the same.
\<close>

theorem C4_Add_rejects_at_capacity:
  assumes "MAX_SEQUENTIAL_OPERATIONS \<le> len_map (ops b)"
  shows "Add b op = (Some CapacityExceeded, b)
       \<and> ops (snd (Add b op)) = ops b
       \<and> total_ops (snd (Add b op)) = total_ops b"
  using assms by (simp add: Add_def)

theorem C4_Add_rejects_at_capacity_witness:
  "MAX_SEQUENTIAL_OPERATIONS \<le> len_map (ops (many_buckets 5000))
   \<and> Add (many_buckets 5000) (set_op ''users'' ''u1'' ''A'')
     = (Some CapacityExceeded, many_buckets 5000)
   \<and> total_ops (snd (Add (many_buckets 5000) (set_op ''users'' ''u1'' ''A'')))
     = total_ops (many_buckets 5000)"
proof -
  have full: "MAX_SEQUENTIAL_OPERATIONS \<le> len_map (ops (many_buckets 5000))"
    by (simp only: len_map_many_buckets MAX_SEQUENTIAL_OPERATIONS_def)
  from C4_Add_rejects_at_capacity[OF full, of "set_op ''users'' ''u1'' ''A''"] full
  show ?thesis by blast
qed

subsection \<open>Get\<close>

text \<open>
  Claim C10: on an open database, Get returns the nil value with the nil error when the
  bucket does not exist and when the bucket exists without the key; Get on an open
  database never returns an error.
\<close>

theorem C10_Get_not_found_is_nil_nil:
  assumes "opened db"
  shows "(buckets db bucketName = None \<longrightarrow> Get db bucketName key = (None, None))
       \<and> (\<forall>bk. buckets db bucketName = Some bk \<and> bk key = None
               \<longrightarrow> Get db bucketName key = (None, None))
       \<and> snd (Get db bucketName key) = None"
  using assms
  by (auto simp: Get_def View_def Tx_Bucket_def Bucket_Get_def split: option.splits)

theorem C10_Get_not_found_is_nil_nil_witness:
  "opened \<lparr>opened = True, buckets = [''users'' \<mapsto> [''u1'' \<mapsto> ''A'']]\<rparr>
   \<and> buckets \<lparr>opened = True, buckets = [''users'' \<mapsto> [''u1'' \<mapsto> ''A'']]\<rparr> ''orders'' = None
   \<and> Get \<lparr>opened = True, buckets = [''users'' \<mapsto> [''u1'' \<mapsto> ''A'']]\<rparr> ''orders'' ''o1''
     = (None, None)
   \<and> buckets \<lparr>opened = True, buckets = [''users'' \<mapsto> [''u1'' \<mapsto> ''A'']]\<rparr> ''users''
     = Some [''u1'' \<mapsto> ''A'']
   \<and> [''u1'' \<mapsto> ''A''] ''u2'' = None
   \<and> Get \<lparr>opened = True, buckets = [''users'' \<mapsto> [''u1'' \<mapsto> ''A'']]\<rparr> ''users'' ''u2''
     = (None, None)"
proof -
  let ?db = "\<lparr>opened = True, buckets = [''users'' \<mapsto> [''u1'' \<mapsto> ''A'']]\<rparr>"
  have o: "opened ?db" by simp
  have a: "buckets ?db ''orders'' = None" by simp
  have b: "buckets ?db ''users'' = Some [''u1'' \<mapsto> ''A'']" by simp
  have c: "[''u1'' \<mapsto> ''A''] ''u2'' = None" by simp
  from C10_Get_not_found_is_nil_nil[OF o, of "''orders''" "''o1''"] a
  have g1: "Get ?db ''orders'' ''o1'' = (None, None)" by blast
  from C10_Get_not_found_is_nil_nil[OF o, of "''users''" "''u2''"] b c
  have g2: "Get ?db ''users'' ''u2'' = (None, None)" by blast
  from o a g1 b c g2 show ?thesis by (intro conjI)
qed

subsection \<open>The transaction of one bucket\<close>

text \<open>
  A bucket's transaction leaves the store as it is when it fails, never opens or closes
  the database, writes no other bucket, and its outcome depends only on whether the
  database is open and on the content of its own bucket.
\<close>

lemma partition_tx_failed:
  "partition_tx db t os = (Some e, db') \<Longrightarrow> db' = db"
  by (auto simp: Batch_def split: if_splits prod.splits option.splits)

lemma partition_tx_opened:
  "opened (snd (partition_tx db t os)) = opened db"
  by (auto simp: Batch_def split: if_splits prod.splits option.splits)

lemma partition_tx_other:
  "u \<noteq> t \<Longrightarrow> buckets (snd (partition_tx db t os)) u = buckets db u"
  by (auto simp: Batch_def execOpsByBucket_def CreateBucketIfNotExists_def
      split: if_splits prod.splits option.splits sum.splits)

lemma partition_tx_depends:
  assumes "opened db1 = opened db2" and "buckets db1 t = buckets db2 t"
  shows "fst (partition_tx db1 t os) = fst (partition_tx db2 t os)"
    and "buckets (snd (partition_tx db1 t os)) t = buckets (snd (partition_tx db2 t os)) t"
  using assms
  by (auto simp: Batch_def execOpsByBucket_def CreateBucketIfNotExists_def
      split: if_splits prod.splits option.splits sum.splits)

lemma nil_set_op_sel [simp]:
  "Bucket (nil_set_op bn k) = bn" "Key (nil_set_op bn k) = k"
  "Value (nil_set_op bn k) = None" "Op (nil_set_op bn k) = OpSet"
  by (simp_all add: nil_set_op_def)

lemma partition_tx_nil_value:
  assumes "Op op = OpSet" and "Value op = None" and "opened db" and "bucket \<noteq> []"
  shows "partition_tx db bucket (op # rest) = (Some ValueMissing, db)"
  using assms
  by (simp add: Batch_def execOpsByBucket_def CreateBucketIfNotExists_def split: option.splits)

lemma partition_tx_set:
  assumes "opened db" and "bucket \<noteq> []" and "key \<noteq> []" and "length key \<le> 32768"
    and "length val \<le> 2147483646"
  shows "partition_tx db bucket (set_op bn key val # rest) =
           (None, db\<lparr>buckets := (buckets db)(bucket \<mapsto>
              (case buckets db bucket of None \<Rightarrow> Map.empty | Some bk \<Rightarrow> bk)(key \<mapsto> val))\<rparr>)"
  using assms
  by (simp add: Batch_def execOpsByBucket_def CreateBucketIfNotExists_def split: option.splits)



subsection \<open>Execute\<close>

lemma Execute_loop_fail_fast:
  assumes "distinct (pre @ k # post)"
    and "\<forall>t\<in>set pre. \<forall>os. m t = Some os \<longrightarrow> fst (partition_tx db t os) = None"
    and "m k = Some osk"
    and "fst (partition_tx db k osk) = Some e"
  shows "fst (Execute_loop m db (pre @ k # post)) = Some e
       \<and> opened (snd (Execute_loop m db (pre @ k # post))) = opened db
       \<and> (\<forall>t os. t \<in> set pre \<and> m t = Some os \<longrightarrow>
            buckets (snd (Execute_loop m db (pre @ k # post))) t
              = buckets (snd (partition_tx db t os)) t)
       \<and> (\<forall>t. t \<notin> set pre \<longrightarrow>
            buckets (snd (Execute_loop m db (pre @ k # post))) t = buckets db t)"
  using assms
proof (induction pre arbitrary: db)
  case Nil
  obtain db' where r: "partition_tx db k osk = (Some e, db')"
    using Nil.prems(4) by (cases "partition_tx db k osk") auto
  have "db' = db" using r by (rule partition_tx_failed)
  with r Nil.prems(3) show ?case by simp
next
  case (Cons p pre)
  let ?rest = "pre @ k # post"
  have dist: "distinct ?rest" and p_rest: "p \<notin> set ?rest"
    using Cons.prems(1) by auto
  show ?case
  proof (cases "m p")
    case None
    have "\<forall>t\<in>set pre. \<forall>os. m t = Some os \<longrightarrow> fst (partition_tx db t os) = None"
      using Cons.prems(2) by simp
    from Cons.IH[OF dist this Cons.prems(3) Cons.prems(4)] None p_rest
    show ?thesis by auto
  next
    case (Some osp)
    have "fst (partition_tx db p osp) = None"
      using Cons.prems(2) Some by simp
    then obtain db1 where r: "partition_tx db p osp = (None, db1)"
      by (cases "partition_tx db p osp") auto
    have op1: "opened db1 = opened db"
      using partition_tx_opened[of db p osp] r by simp
    have other: "\<And>u. u \<noteq> p \<Longrightarrow> buckets db1 u = buckets db u"
      using partition_tx_other[of _ p db osp] r by simp
    have pre1: "\<forall>t\<in>set pre. \<forall>os. m t = Some os \<longrightarrow> fst (partition_tx db1 t os) = None"
    proof (intro ballI allI impI)
      fix t os assume t: "t \<in> set pre" and mt: "m t = Some os"
      then have "t \<noteq> p" using p_rest by auto
      from partition_tx_depends(1)[OF op1 other[OF this], of os] Cons.prems(2) t mt
      show "fst (partition_tx db1 t os) = None" by simp
    qed
    have "k \<noteq> p" using p_rest by auto
    from partition_tx_depends(1)[OF op1 other[OF this], of osk] Cons.prems(4)
    have k1: "fst (partition_tx db1 k osk) = Some e" by simp
    note IH = Cons.IH[OF dist pre1 Cons.prems(3) k1]
    have step: "Execute_loop m db ((p # pre) @ k # post) = Execute_loop m db1 ?rest"
      using Some r by simp
    have A: "fst (Execute_loop m db ((p # pre) @ k # post)) = Some e"
      using IH step by simp
    have B: "opened (snd (Execute_loop m db ((p # pre) @ k # post))) = opened db"
      using IH step op1 by simp
    have C: "\<forall>t os. t \<in> set (p # pre) \<and> m t = Some os \<longrightarrow>
            buckets (snd (Execute_loop m db ((p # pre) @ k # post))) t
              = buckets (snd (partition_tx db t os)) t"
    proof (intro allI impI)
      fix t os assume h: "t \<in> set (p # pre) \<and> m t = Some os"
      show "buckets (snd (Execute_loop m db ((p # pre) @ k # post))) t
              = buckets (snd (partition_tx db t os)) t"
      proof (cases "t = p")
        case True
        then have "t \<notin> set pre" using p_rest by auto
        with IH step
        have "buckets (snd (Execute_loop m db ((p # pre) @ k # post))) t = buckets db1 t"
          by simp
        moreover have "os = osp" using h True Some by simp
        ultimately show ?thesis using r True by simp
      next
        case False
        then have tp: "t \<in> set pre" using h by simp
        with IH step h
        have "buckets (snd (Execute_loop m db ((p # pre) @ k # post))) t
                = buckets (snd (partition_tx db1 t os)) t" by simp
        also have "\<dots> = buckets (snd (partition_tx db t os)) t"
          by (rule partition_tx_depends(2)[OF op1 other[OF False]])
        finally show ?thesis .
      qed
    qed
    have D: "\<forall>t. t \<notin> set (p # pre) \<longrightarrow>
            buckets (snd (Execute_loop m db ((p # pre) @ k # post))) t = buckets db t"
      using IH step other by simp
    from A B C D show ?thesis by blast
  qed
qed

text \<open>
  Claim C5: let Execute visit the buckets in the order \<open>pre @ k # post\<close>, let the
  transactions of the buckets in \<open>pre\<close> succeed and the transaction of \<open>k\<close> fail with
  the error \<open>e\<close> (a bucket's transaction depends on its own bucket only, so its outcome is
  stated on the store at the call). Then Execute returns \<open>e\<close>, every bucket of \<open>pre\<close>
  holds what its transaction committed, and every other bucket, \<open>k\<close> and those of
  \<open>post\<close> included, holds what it held at the call.
\<close>

theorem C5_Execute_stops_at_first_failure:
  assumes ord: "range_order (ops b) (pre @ k # post)"
    and pre: "\<forall>t\<in>set pre. tx_error db (ops b) t = None"
    and k: "tx_error db (ops b) k = Some e"
  shows "fst (Execute b db (pre @ k # post)) = Some e
       \<and> fst (snd (Execute b db (pre @ k # post))) = b
       \<and> opened (snd (snd (Execute b db (pre @ k # post)))) = opened db
       \<and> (\<forall>t. buckets (snd (snd (Execute b db (pre @ k # post)))) t
               = (if t \<in> set pre then tx_bucket db (ops b) t else buckets db t))"
proof -
  let ?order = "pre @ k # post"
  have dist: "distinct ?order" using ord by (simp add: range_order_def)
  obtain osk where osk: "ops b k = Some osk" "fst (partition_tx db k osk) = Some e"
    using k by (auto simp: tx_error_def split: option.splits)
  have pre': "\<forall>t\<in>set pre. \<forall>os. ops b t = Some os \<longrightarrow> fst (partition_tx db t os) = None"
    using pre by (auto simp: tx_error_def)
  note L = Execute_loop_fail_fast[OF dist pre' osk]
  have E1: "fst (Execute b db ?order) = fst (Execute_loop (ops b) db ?order)"
    and E2: "fst (snd (Execute b db ?order)) = b"
    and E3: "snd (snd (Execute b db ?order)) = snd (Execute_loop (ops b) db ?order)"
    by (simp_all add: Execute_def split: prod.splits)
  have bk: "\<forall>t. buckets (snd (Execute_loop (ops b) db ?order)) t
               = (if t \<in> set pre then tx_bucket db (ops b) t else buckets db t)"
  proof
    fix t
    show "buckets (snd (Execute_loop (ops b) db ?order)) t
               = (if t \<in> set pre then tx_bucket db (ops b) t else buckets db t)"
    proof (cases "t \<in> set pre")
      case True
      then have "t \<in> dom (ops b)" using ord by (auto simp: range_order_def)
      then obtain os where os: "ops b t = Some os" by auto
      with L True show ?thesis by (simp add: tx_bucket_def)
    next
      case False
      with L show ?thesis by simp
    qed
  qed
  from L E1 E2 E3 bk show ?thesis by simp
qed

theorem C5_Execute_stops_at_first_failure_witness:
  "range_order (ops three_buckets) ([''a''] @ ''b'' # [''c''])
   \<and> tx_error empty_db (ops three_buckets) ''a'' = None
   \<and> tx_error empty_db (ops three_buckets) ''b'' = Some ValueMissing
   \<and> fst (Execute three_buckets empty_db ([''a''] @ ''b'' # [''c''])) = Some ValueMissing
   \<and> buckets (snd (snd (Execute three_buckets empty_db ([''a''] @ ''b'' # [''c''])))) ''a''
       = Some [''k'' \<mapsto> ''v'']
   \<and> buckets (snd (snd (Execute three_buckets empty_db ([''a''] @ ''b'' # [''c''])))) ''b''
       = None
   \<and> buckets (snd (snd (Execute three_buckets empty_db ([''a''] @ ''b'' # [''c''])))) ''c''
       = None"
proof -
  have ord: "range_order (ops three_buckets) ([''a''] @ ''b'' # [''c''])"
    by (auto simp: range_order_def three_buckets_def)
  have a: "tx_error empty_db (ops three_buckets) ''a'' = None"
    by (simp add: tx_error_def three_buckets_def empty_db_def partition_tx_set)
  have b: "tx_error empty_db (ops three_buckets) ''b'' = Some ValueMissing"
    by (simp add: tx_error_def three_buckets_def empty_db_def partition_tx_nil_value)
  have pre: "\<forall>t\<in>set [''a'']. tx_error empty_db (ops three_buckets) t = None"
    using a by simp
  have ta: "tx_bucket empty_db (ops three_buckets) ''a'' = Some [''k'' \<mapsto> ''v'']"
    by (simp add: tx_bucket_def three_buckets_def empty_db_def partition_tx_set)
  have e: "buckets empty_db ''b'' = None" "buckets empty_db ''c'' = None"
    by (simp_all add: empty_db_def)
  from C5_Execute_stops_at_first_failure[OF ord pre b] a b ord ta e
  show ?thesis by simp
qed


subsection \<open>ExecuteConcurrent: the actions and what they preserve\<close>

lemma task_step_cases:
  assumes "task_step s t = Some s'"
  obtains
    (acquire) "tasks s t = Some Waiting" "semaphore s < semaphore_cap (batch s)"
       "s' = s\<lparr>tasks := (tasks s)(t \<mapsto> Running), semaphore := semaphore s + 1\<rparr>"
  | (run) os where "tasks s t = Some Running" "ops (batch s) t = Some os"
       "s' = s\<lparr>tasks := (tasks s)(t \<mapsto> Returned (fst (partition_tx (store s) t os))),
                store := snd (partition_tx (store s) t os)\<rparr>"
  | (release) err where "tasks s t = Some (Returned err)" "0 < semaphore s"
       "s' = s\<lparr>tasks := (tasks s)(t \<mapsto> Released err), semaphore := semaphore s - 1\<rparr>"
  | (finish) err where "tasks s t = Some (Released err)" "0 < wg s"
       "s' = s\<lparr>tasks := (tasks s)(t \<mapsto> Done), wg := wg s - 1,
                gerr := (case gerr s of None \<Rightarrow> err | Some e \<Rightarrow> Some e),
                finished := finished s @ [(t, err)]\<rparr>"
  using assms unfolding task_step_def
  by (auto split: option.splits task.splits if_splits prod.splits)

lemma run_schedule_append:
  "run_schedule s (xs @ ys) =
     (case run_schedule s xs of None \<Rightarrow> None | Some s' \<Rightarrow> run_schedule s' ys)"
  by (induction xs arbitrary: s) (auto split: option.splits)

lemma run_schedule_invariant:
  assumes "run_schedule s sched = Some s'" and "P s"
    and "\<And>s t s'. P s \<Longrightarrow> task_step s t = Some s' \<Longrightarrow> P s'"
  shows "P s'"
  using assms(1,2)
proof (induction sched arbitrary: s)
  case Nil
  then show ?case by simp
next
  case (Cons t ts)
  then obtain s1 where "task_step s t = Some s1" "run_schedule s1 ts = Some s'"
    by (auto split: option.splits)
  with Cons assms(3) show ?case by blast
qed

lemma task_step_dom: "task_step s t = Some s' \<Longrightarrow> dom (tasks s') = dom (tasks s)"
  by (erule task_step_cases) auto

lemma inv_struct_init: "inv_struct b (conc_init b db)"
  by (auto simp: inv_struct_def conc_init_def dom_def)

lemma inv_struct_step:
  "inv_struct b s \<Longrightarrow> task_step s t = Some s' \<Longrightarrow> inv_struct b s'"
  by (erule task_step_cases) (auto simp: inv_struct_def)

lemma holders_upd:
  "holders (s\<lparr>tasks := (tasks s)(t \<mapsto> x)\<rparr>) =
     (if x = Running \<or> (\<exists>e. x = Returned e) then insert t (holders s) else holders s - {t})"
  by (auto simp: holders_def)

lemma pending_upd:
  "pending (s\<lparr>tasks := (tasks s)(t \<mapsto> x)\<rparr>) =
     (if x \<noteq> Done then insert t (pending s) else pending s - {t})"
  by (auto simp: pending_def)

lemma holders_simps [simp]:
  "holders (s\<lparr>semaphore := a\<rparr>) = holders s" "holders (s\<lparr>wg := w\<rparr>) = holders s"
  "holders (s\<lparr>store := d\<rparr>) = holders s" "holders (s\<lparr>gerr := g\<rparr>) = holders s"
  "holders (s\<lparr>finished := f\<rparr>) = holders s"
  by (simp_all add: holders_def)

lemma pending_simps [simp]:
  "pending (s\<lparr>semaphore := a\<rparr>) = pending s" "pending (s\<lparr>wg := w\<rparr>) = pending s"
  "pending (s\<lparr>store := d\<rparr>) = pending s" "pending (s\<lparr>gerr := g\<rparr>) = pending s"
  "pending (s\<lparr>finished := f\<rparr>) = pending s"
  by (simp_all add: pending_def)

lemma finite_holders: "finite (dom (tasks s)) \<Longrightarrow> finite (holders s)"
  by (rule finite_subset[of _ "dom (tasks s)"]) (auto simp: holders_def)

lemma finite_pending: "finite (dom (tasks s)) \<Longrightarrow> finite (pending s)"
  by (rule finite_subset[of _ "dom (tasks s)"]) (auto simp: pending_def)

lemma inv_count_init:
  "finite (dom (ops b)) \<Longrightarrow> inv_count (conc_init b db)"
proof -
  have "holders (conc_init b db) = {}"
    by (auto simp: holders_def conc_init_def)
  moreover have "pending (conc_init b db) = dom (ops b)"
    by (auto simp: pending_def conc_init_def)
  ultimately show ?thesis
    by (auto simp add: inv_count_def) (simp_all add: conc_init_def len_map_def)
qed

lemma inv_count_step:
  assumes fin: "finite (dom (tasks s))" and inv: "inv_count s" and st: "task_step s t = Some s'"
  shows "inv_count s'"
  using st
proof (cases rule: task_step_cases)
  case acquire
  have "t \<notin> holders s" using acquire(1) by (simp add: holders_def)
  moreover have "t \<in> pending s" using acquire(1) by (simp add: pending_def)
  ultimately show ?thesis
    using inv acquire(2) finite_holders[OF fin]
    by (auto simp add: inv_count_def acquire(3) holders_upd pending_upd insert_absorb)
next
  case (run os)
  have "t \<in> holders s" using run(1) by (simp add: holders_def)
  moreover have "t \<in> pending s" using run(1) by (simp add: pending_def)
  ultimately show ?thesis
    using inv
    by (auto simp add: inv_count_def run(3) holders_upd pending_upd insert_absorb)
next
  case (release err)
  have "t \<in> holders s" using release(1) by (simp add: holders_def)
  moreover have "t \<in> pending s" using release(1) by (simp add: pending_def)
  ultimately show ?thesis
    using inv finite_holders[OF fin]
    by (auto simp add: inv_count_def release(3) holders_upd pending_upd insert_absorb)
next
  case (finish err)
  have "t \<notin> holders s" using finish(1) by (simp add: holders_def)
  moreover have "t \<in> pending s" using finish(1) by (simp add: pending_def)
  ultimately show ?thesis
    using inv finite_pending[OF fin]
    by (auto simp add: inv_count_def finish(3) holders_upd pending_upd insert_absorb)
qed

lemma task_view_mono:
  "task_view db sdb t os fin x \<Longrightarrow> buckets sdb' t = buckets sdb t \<Longrightarrow> set fin \<subseteq> set fin'
   \<Longrightarrow> task_view db sdb' t os fin' x"
  by (cases x) auto

lemma first_error_single: "first_error [e] = e"
  by (cases e) auto

lemma first_error_append:
  "first_error (es @ [e]) = (case first_error es of None \<Rightarrow> e | Some x \<Rightarrow> Some x)"
  by (induction es rule: first_error.induct) (auto simp: first_error_single)

lemma first_error_None_iff: "first_error es = None \<longleftrightarrow> (\<forall>e\<in>set es. e = None)"
  by (induction es rule: first_error.induct) auto

lemma inv_store_init: "inv_store b db (conc_init b db)"
  by (auto simp: inv_store_def conc_init_def split: option.splits)

lemma inv_storeD:
  assumes "inv_store b db s" and "ops b t = Some os"
  obtains x where "tasks s t = Some x" "task_view db (store s) t os (finished s) x"
proof -
  from assms(1) have "case ops b t of
              None \<Rightarrow> buckets (store s) t = buckets db t
            | Some os \<Rightarrow> (case tasks s t of
                            None \<Rightarrow> False
                          | Some x \<Rightarrow> task_view db (store s) t os (finished s) x)"
    unfolding inv_store_def by blast
  with assms(2) that show thesis by (auto split: option.splits)
qed

lemma inv_store_step:
  assumes str: "inv_struct b s" and inv: "inv_store b db s" and st: "task_step s t = Some s'"
  shows "inv_store b db s'"
  using st
proof (cases rule: task_step_cases)
  case acquire
  show ?thesis
    unfolding inv_store_def
  proof (intro conjI allI)
    fix u
    show "case ops b u of None \<Rightarrow> buckets (store s') u = buckets db u
          | Some os \<Rightarrow> (case tasks s' u of None \<Rightarrow> False
              | Some x \<Rightarrow> task_view db (store s') u os (finished s') x)"
      using inv acquire(1) unfolding inv_store_def acquire(3)
      by (cases "u = t") (auto split: option.splits dest!: spec[of _ u])
  qed (use inv in \<open>auto simp: inv_store_def acquire(3)\<close>)
next
  case (run os)
  have bs: "batch s = b" using str by (simp add: inv_struct_def)
  have os: "ops b t = Some os" using run(2) bs by simp
  have op: "opened (store s) = opened db" using inv by (simp add: inv_store_def)
  from inv_storeD[OF inv os] run(1)
  have same: "buckets (store s) t = buckets db t" by auto
  let ?r = "partition_tx (store s) t os"
  have e: "fst ?r = fst (partition_tx db t os)"
    by (rule partition_tx_depends(1)[OF op same])
  have bk: "buckets (snd ?r) t = buckets (snd (partition_tx db t os)) t"
    by (rule partition_tx_depends(2)[OF op same])
  have oth: "\<And>u. u \<noteq> t \<Longrightarrow> buckets (snd ?r) u = buckets (store s) u"
    by (rule partition_tx_other)
  show ?thesis
    unfolding inv_store_def
  proof (intro conjI allI)
    show "opened (store s') = opened db"
      using op partition_tx_opened[of "store s" t os] by (simp add: run(3))
  next
    fix u
    show "case ops b u of None \<Rightarrow> buckets (store s') u = buckets db u
          | Some os \<Rightarrow> (case tasks s' u of None \<Rightarrow> False
              | Some x \<Rightarrow> task_view db (store s') u os (finished s') x)"
    proof (cases "u = t")
      case True
      then show ?thesis using os e bk by (simp add: run(3))
    next
      case False
      from inv have "case ops b u of None \<Rightarrow> buckets (store s) u = buckets db u
          | Some os \<Rightarrow> (case tasks s u of None \<Rightarrow> False
              | Some x \<Rightarrow> task_view db (store s) u os (finished s) x)"
        by (simp add: inv_store_def)
      with False oth[OF False] show ?thesis
        by (auto simp: run(3) split: option.splits elim: task_view_mono)
    qed
  qed (use inv in \<open>auto simp: inv_store_def run(3)\<close>)
next
  case (release err)
  show ?thesis
    unfolding inv_store_def
  proof (intro conjI allI)
    fix u
    show "case ops b u of None \<Rightarrow> buckets (store s') u = buckets db u
          | Some os \<Rightarrow> (case tasks s' u of None \<Rightarrow> False
              | Some x \<Rightarrow> task_view db (store s') u os (finished s') x)"
      using inv release(1) unfolding inv_store_def release(3)
      by (cases "u = t") (auto split: option.splits dest!: spec[of _ u])
  qed (use inv in \<open>auto simp: inv_store_def release(3)\<close>)
next
  case (finish err)
  have dm: "dom (tasks s) = dom (ops b)" using str by (simp add: inv_struct_def)
  then obtain os where os: "ops b t = Some os" using finish(1) by (metis domD domI)
  from inv_storeD[OF inv os] finish(1)
  have err: "err = fst (partition_tx db t os)"
    and bk: "buckets (store s) t = buckets (snd (partition_tx db t os)) t" by auto
  show ?thesis
    unfolding inv_store_def
  proof (intro conjI allI)
    fix u
    from inv have *: "case ops b u of None \<Rightarrow> buckets (store s) u = buckets db u
          | Some os \<Rightarrow> (case tasks s u of None \<Rightarrow> False
              | Some x \<Rightarrow> task_view db (store s) u os (finished s) x)"
      by (simp add: inv_store_def)
    show "case ops b u of None \<Rightarrow> buckets (store s') u = buckets db u
          | Some os \<Rightarrow> (case tasks s' u of None \<Rightarrow> False
              | Some x \<Rightarrow> task_view db (store s') u os (finished s') x)"
    proof (cases "u = t")
      case True
      then show ?thesis using os err bk by (simp add: finish(3))
    next
      case False
      with * show ?thesis
        by (auto simp: finish(3) split: option.splits elim: task_view_mono)
    qed
  next
    show "gerr s' = first_error (map snd (finished s'))"
      using inv by (simp add: inv_store_def finish(3) first_error_append)
  next
    show "\<forall>p\<in>set (finished s'). \<exists>os. ops b (fst p) = Some os
                                   \<and> snd p = fst (partition_tx db (fst p) os)"
      using inv os err by (auto simp: inv_store_def finish(3))
  qed (use inv in \<open>auto simp: inv_store_def finish(3)\<close>)
qed

lemma inv_log_init: "inv_log (conc_init b db)"
  by (auto simp: inv_log_def conc_init_def)

lemma inv_log_step:
  assumes inv: "inv_log s" and st: "task_step s t = Some s'"
  shows "inv_log s'"
  using st
proof (cases rule: task_step_cases)
  case acquire
  with inv show ?thesis by (auto simp: inv_log_def)
next
  case (run os)
  with inv show ?thesis by (auto simp: inv_log_def)
next
  case (release err)
  with inv show ?thesis by (auto simp: inv_log_def)
next
  case (finish err)
  have "t \<notin> {u. tasks s u = Some Done}" using finish(1) by simp
  then have "t \<notin> set (map fst (finished s))" using inv by (simp add: inv_log_def)
  with inv show ?thesis by (auto simp: inv_log_def finish(3))
qed

lemma reachable_invariants:
  assumes fin: "finite (dom (ops b))" and run: "run_schedule (conc_init b db) sched = Some s"
  shows "finite (dom (tasks s)) \<and> inv_struct b s \<and> inv_count s \<and> inv_store b db s \<and> inv_log s"
proof (rule run_schedule_invariant[OF run])
  have "dom (tasks (conc_init b db)) = dom (ops b)"
    using inv_struct_init[of b db] by (simp add: inv_struct_def)
  with fin show "finite (dom (tasks (conc_init b db))) \<and> inv_struct b (conc_init b db)
      \<and> inv_count (conc_init b db) \<and> inv_store b db (conc_init b db) \<and> inv_log (conc_init b db)"
    by (simp add: inv_struct_init inv_count_init inv_store_init inv_log_init)
next
  fix s t s'
  assume P: "finite (dom (tasks s)) \<and> inv_struct b s \<and> inv_count s \<and> inv_store b db s \<and> inv_log s"
    and st: "task_step s t = Some s'"
  from P st show "finite (dom (tasks s')) \<and> inv_struct b s' \<and> inv_count s' \<and> inv_store b db s'
      \<and> inv_log s'"
    using task_step_dom[of s t s'] inv_struct_step[of b s t s'] inv_count_step[of s t s']
      inv_store_step[of b s db t s'] inv_log_step[of s t s']
    by simp
qed

subsection \<open>ExecuteConcurrent: every execution ends\<close>

lemma remaining_upd:
  assumes fin: "finite (dom (tasks s))" and t: "tasks s t = Some x"
    and eq: "steps_left (Some x) = Suc (steps_left (Some y))"
    and s': "tasks s' = (tasks s)(t \<mapsto> y)"
  shows "remaining s = Suc (remaining s')"
proof -
  have tin: "t \<in> dom (tasks s)" using t by auto
  have dm: "dom (tasks s') = dom (tasks s)" using tin s' by auto
  have "remaining s = steps_left (tasks s t) + (\<Sum>u\<in>dom (tasks s) - {t}. steps_left (tasks s u))"
    unfolding remaining_def by (rule sum.remove[OF fin tin])
  moreover
  have "remaining s' = steps_left (tasks s' t) + (\<Sum>u\<in>dom (tasks s) - {t}. steps_left (tasks s' u))"
    unfolding remaining_def dm by (rule sum.remove[OF fin tin])
  moreover
  have "(\<Sum>u\<in>dom (tasks s) - {t}. steps_left (tasks s' u))
        = (\<Sum>u\<in>dom (tasks s) - {t}. steps_left (tasks s u))"
    by (rule sum.cong) (auto simp: s')
  ultimately show ?thesis using t eq by (simp add: s')
qed

lemma remaining_step:
  assumes fin: "finite (dom (tasks s))" and st: "task_step s t = Some s'"
  shows "remaining s = Suc (remaining s')"
  using st
proof (cases rule: task_step_cases)
  case acquire
  show ?thesis by (rule remaining_upd[OF fin acquire(1)]) (simp_all add: acquire(3))
next
  case (run os)
  show ?thesis by (rule remaining_upd[OF fin run(1)]) (simp_all add: run(3))
next
  case (release err)
  show ?thesis by (rule remaining_upd[OF fin release(1)]) (simp_all add: release(3))
next
  case (finish err)
  show ?thesis by (rule remaining_upd[OF fin finish(1)]) (simp_all add: finish(3))
qed

lemma remaining_init:
  "finite (dom (ops b)) \<Longrightarrow> remaining (conc_init b db) = 4 * len_map (ops b)"
proof -
  have d: "dom (tasks (conc_init b db)) = dom (ops b)"
    by (auto simp: conc_init_def dom_def)
  have "\<And>t. t \<in> dom (ops b) \<Longrightarrow> steps_left (tasks (conc_init b db) t) = 4"
    by (auto simp: conc_init_def)
  then show ?thesis
    unfolding remaining_def d len_map_def by simp
qed

lemma run_schedule_remaining:
  "finite (dom (tasks s)) \<Longrightarrow> run_schedule s sched = Some s'
   \<Longrightarrow> remaining s = length sched + remaining s'"
proof (induction sched arbitrary: s)
  case Nil
  then show ?case by simp
next
  case (Cons t ts)
  then obtain s1 where s1: "task_step s t = Some s1" "run_schedule s1 ts = Some s'"
    by (auto split: option.splits)
  have "finite (dom (tasks s1))" using task_step_dom[OF s1(1)] Cons.prems(1) by simp
  from Cons.IH[OF this s1(2)] remaining_step[OF Cons.prems(1) s1(1)]
  show ?case by simp
qed

lemma pending_empty_remaining:
  assumes "pending s = {}"
  shows "remaining s = 0"
proof -
  have "\<And>t. t \<in> dom (tasks s) \<Longrightarrow> tasks s t = Some Done"
    using assms by (auto simp: pending_def)
  then show ?thesis by (simp add: remaining_def)
qed

lemma some_task_enabled:
  assumes fin: "finite (dom (tasks s))" and str: "inv_struct b s" and cnt: "inv_count s"
    and pend: "pending s \<noteq> {}"
  shows "\<exists>t s'. task_step s t = Some s'"
proof -
  have wgpos: "0 < wg s"
    using cnt pend finite_pending[OF fin] by (simp add: inv_count_def card_gt_0_iff)
  show ?thesis
  proof (cases "\<exists>t. tasks s t = Some Running")
    case True
    then obtain t where t: "tasks s t = Some Running" by blast
    then have "t \<in> dom (ops (batch s))" using str by (auto simp: inv_struct_def)
    then obtain os where "ops (batch s) t = Some os" by auto
    with t have "task_step s t \<noteq> None" by (simp add: task_step_def split: prod.splits)
    then show ?thesis by blast
  next
    case noRun: False
    show ?thesis
    proof (cases "\<exists>t e. tasks s t = Some (Returned e)")
      case True
      then obtain t e where t: "tasks s t = Some (Returned e)" by blast
      then have "t \<in> holders s" by (simp add: holders_def)
      then have "0 < semaphore s"
        using cnt finite_holders[OF fin] by (auto simp: inv_count_def card_gt_0_iff)
      with t have "task_step s t \<noteq> None" by (simp add: task_step_def)
      then show ?thesis by blast
    next
      case noRet: False
      show ?thesis
      proof (cases "\<exists>t e. tasks s t = Some (Released e)")
        case True
        then obtain t e where t: "tasks s t = Some (Released e)" by blast
        with wgpos have "task_step s t \<noteq> None" by (simp add: task_step_def)
        then show ?thesis by blast
      next
        case noRel: False
        from pend obtain t x where t: "tasks s t = Some x" "x \<noteq> Done"
          by (auto simp: pending_def)
        with noRun noRet noRel have w: "tasks s t = Some Waiting" by (cases x) auto
        have "holders s = {}" using noRun noRet by (auto simp: holders_def)
        then have s0: "semaphore s = 0" using cnt by (simp add: inv_count_def)
        have "t \<in> dom (ops (batch s))" using w str by (auto simp: inv_struct_def)
        moreover have "finite (dom (ops (batch s)))" using fin str by (simp add: inv_struct_def)
        ultimately have "0 < len_map (ops (batch s))"
          by (auto simp: len_map_def card_gt_0_iff)
        then have "0 < semaphore_cap (batch s)"
          by (simp add: semaphore_cap_def MAX_CONCURRENT_OPERATIONS_def)
        with s0 w have "task_step s t \<noteq> None" by (simp add: task_step_def)
        then show ?thesis by blast
      qed
    qed
  qed
qed

lemma schedule_completes:
  assumes "finite (dom (tasks s))" and "inv_struct b s" and "inv_count s"
  shows "\<exists>rest s'. run_schedule s rest = Some s' \<and> wg s' = 0"
  using assms
proof (induction "remaining s" arbitrary: s)
  case 0
  have "pending s = {}"
  proof (rule ccontr)
    assume "pending s \<noteq> {}"
    from some_task_enabled[OF "0.prems"(1,2,3) this] obtain t s' where "task_step s t = Some s'"
      by blast
    from remaining_step[OF "0.prems"(1) this] "0.hyps" show False by simp
  qed
  then have "wg s = 0" using "0.prems"(3) by (simp add: inv_count_def)
  then have "run_schedule s [] = Some s \<and> wg s = 0" by simp
  then show ?case by blast
next
  case (Suc n)
  have "pending s \<noteq> {}"
    using pending_empty_remaining[of s] Suc.hyps(2) by auto
  from some_task_enabled[OF Suc.prems(1,2,3) this] obtain t s1 where st: "task_step s t = Some s1"
    by blast
  have n: "n = remaining s1" using remaining_step[OF Suc.prems(1) st] Suc.hyps(2) by simp
  have f1: "finite (dom (tasks s1))" using task_step_dom[OF st] Suc.prems(1) by simp
  have i1: "inv_struct b s1" by (rule inv_struct_step[OF Suc.prems(2) st])
  have c1: "inv_count s1" by (rule inv_count_step[OF Suc.prems(1) Suc.prems(3) st])
  from Suc.hyps(1)[OF n f1 i1 c1] obtain rest s' where "run_schedule s1 rest = Some s'" "wg s' = 0"
    by blast
  with st have "run_schedule s (t # rest) = Some s' \<and> wg s' = 0" by simp
  then show ?case by blast
qed

subsection \<open>ExecuteConcurrent: the claims\<close>

lemma final_all_done:
  assumes fin: "finite (dom (tasks s))" and cnt: "inv_count s" and w: "wg s = 0"
  shows "pending s = {}"
  using cnt w finite_pending[OF fin] by (simp add: inv_count_def)

text \<open>
  Claim C8: in every state that an execution of ExecuteConcurrent reaches, the number of
  bucket transactions in flight is at most min(10, number of buckets). A goroutine whose
  transaction is in flight holds a slot of the channel, the channel holds exactly one
  element per goroutine between its send and its receive, a goroutine whose transaction
  has returned, with an error or without, can always take its element out again, and
  when the group's counter is zero the channel is empty.
\<close>

theorem C8_at_most_cap_transactions_in_flight:
  assumes fin: "finite (dom (ops b))"
    and run: "run_schedule (conc_init b db) sched = Some s"
  shows "card (in_flight s) \<le> min MAX_CONCURRENT_OPERATIONS (len_map (ops b))
       \<and> in_flight s \<subseteq> holders s
       \<and> semaphore s = card (holders s)
       \<and> (\<forall>t err. tasks s t = Some (Returned err) \<longrightarrow>
            (\<exists>s'. task_step s t = Some s' \<and> tasks s' t = Some (Released err)
                 \<and> Suc (semaphore s') = semaphore s))
       \<and> (wg s = 0 \<longrightarrow> semaphore s = 0)"
proof -
  from reachable_invariants[OF fin run]
  have ft: "finite (dom (tasks s))" and str: "inv_struct b s" and cnt: "inv_count s"
    by simp_all
  have sub: "in_flight s \<subseteq> holders s"
    by (auto simp: in_flight_def holders_def)
  have fh: "finite (holders s)" by (rule finite_holders[OF ft])
  have sem: "semaphore s = card (holders s)" and cap: "semaphore s \<le> semaphore_cap (batch s)"
    using cnt by (simp_all add: inv_count_def)
  have "card (in_flight s) \<le> card (holders s)"
    by (rule card_mono[OF fh sub])
  with sem cap str
  have bound: "card (in_flight s) \<le> min MAX_CONCURRENT_OPERATIONS (len_map (ops b))"
    by (simp add: semaphore_cap_def inv_struct_def)
  have rel: "\<forall>t err. tasks s t = Some (Returned err) \<longrightarrow>
            (\<exists>s'. task_step s t = Some s' \<and> tasks s' t = Some (Released err)
                 \<and> Suc (semaphore s') = semaphore s)"
  proof (intro allI impI)
    fix t err assume t: "tasks s t = Some (Returned err)"
    then have "t \<in> holders s" by (simp add: holders_def)
    then have "0 < semaphore s" using sem fh by (auto simp: card_gt_0_iff)
    with t show "\<exists>s'. task_step s t = Some s' \<and> tasks s' t = Some (Released err)
                 \<and> Suc (semaphore s') = semaphore s"
      by (simp add: task_step_def)
  qed
  have fin0: "wg s = 0 \<longrightarrow> semaphore s = 0"
  proof
    assume "wg s = 0"
    then have "pending s = {}" by (rule final_all_done[OF ft cnt])
    moreover have "holders s \<subseteq> pending s" by (auto simp: holders_def pending_def)
    ultimately have "holders s = {}" by simp
    with sem show "semaphore s = 0" by simp
  qed
  from bound sub sem rel fin0 show ?thesis by (intro conjI)
qed

theorem C8_at_most_cap_transactions_in_flight_witness:
  "finite (dom (ops two_buckets))
   \<and> run_schedule (conc_init two_buckets empty_db) [''a'', ''b'', ''a''] \<noteq> None
   \<and> tasks (the (run_schedule (conc_init two_buckets empty_db) [''a'', ''b'', ''a''])) ''a''
       = Some (Returned (Some ValueMissing))
   \<and> tasks (the (run_schedule (conc_init two_buckets empty_db) [''a'', ''b'', ''a''])) ''b''
       = Some Running
   \<and> semaphore (the (run_schedule (conc_init two_buckets empty_db) [''a'', ''b'', ''a''])) = 2
   \<and> card (in_flight (the (run_schedule (conc_init two_buckets empty_db) [''a'', ''b'', ''a''])))
       \<le> min MAX_CONCURRENT_OPERATIONS (len_map (ops two_buckets))
   \<and> card (holders (the (run_schedule (conc_init two_buckets empty_db) [''a'', ''b'', ''a'']))) = 2"
proof -
  let ?r = "run_schedule (conc_init two_buckets empty_db) [''a'', ''b'', ''a'']"
  have fin: "finite (dom (ops two_buckets))"
    by (simp add: two_buckets_def)
  have ev: "?r \<noteq> None"
    "tasks (the ?r) ''a'' = Some (Returned (Some ValueMissing))"
    "tasks (the ?r) ''b'' = Some Running"
    "semaphore (the ?r) = 2"
    by (simp_all add: conc_init_def task_step_def semaphore_cap_def len_map_def
        MAX_CONCURRENT_OPERATIONS_def partition_tx_nil_value empty_db_def two_buckets_def)
  from ev(1) obtain s where s: "?r = Some s" by blast
  from C8_at_most_cap_transactions_in_flight[OF fin s] s ev fin
  show ?thesis by simp
qed

text \<open>
  Claim C6. For a batch with finitely many buckets:
  \<^item> every execution of ExecuteConcurrent takes at most four actions per bucket and can
    always be continued to the point where Wait returns, so the call never blocks for
    ever and returns only when every goroutine has finished;
  \<^item> when it returns, every bucket holds what its own transaction makes of it (the
    committed content when that transaction succeeds, the old content when it fails),
    whatever happened to the other buckets;
  \<^item> the error returned is the first error in the order in which the goroutines
    returned into the group, and it is nil exactly when every bucket's transaction
    succeeds.
\<close>

theorem C6_ExecuteConcurrent_runs_all_returns_first_error:
  assumes fin: "finite (dom (ops b))"
  shows "(\<forall>sched s. run_schedule (conc_init b db) sched = Some s \<longrightarrow>
            length sched \<le> 4 * len_map (ops b)
          \<and> (\<exists>rest. ExecuteConcurrent b db (sched @ rest) \<noteq> None))
       \<and> (\<forall>sched e b' db'. ExecuteConcurrent b db sched = Some (e, b', db') \<longrightarrow>
            (\<forall>t. buckets db' t = tx_bucket db (ops b) t)
          \<and> range_order (ops b) (completion_order b db sched)
          \<and> e = first_error (map (tx_error db (ops b)) (completion_order b db sched))
          \<and> (e = None \<longleftrightarrow> (\<forall>t. tx_error db (ops b) t = None)))"
proof (intro conjI allI impI)
  fix sched s
  assume run: "run_schedule (conc_init b db) sched = Some s"
  have f0: "finite (dom (tasks (conc_init b db)))"
    using fin inv_struct_init[of b db] by (simp add: inv_struct_def)
  from run_schedule_remaining[OF f0 run] remaining_init[OF fin, of db]
  show "length sched \<le> 4 * len_map (ops b)" by simp
  from reachable_invariants[OF fin run]
  have "finite (dom (tasks s))" "inv_struct b s" "inv_count s" by simp_all
  from schedule_completes[OF this] obtain rest s'
    where "run_schedule s rest = Some s'" "wg s' = 0" by blast
  with run have "ExecuteConcurrent b db (sched @ rest) \<noteq> None"
    by (simp add: ExecuteConcurrent_def run_schedule_append)
  then show "\<exists>rest. ExecuteConcurrent b db (sched @ rest) \<noteq> None" ..
next
  fix sched e b' db'
  assume ex: "ExecuteConcurrent b db sched = Some (e, b', db')"
  then obtain s where run: "run_schedule (conc_init b db) sched = Some s"
    and w: "wg s = 0" and e: "e = gerr s" and db': "db' = store s"
    by (auto simp: ExecuteConcurrent_def split: option.splits if_splits)
  from reachable_invariants[OF fin run]
  have ft: "finite (dom (tasks s))" and str: "inv_struct b s" and cnt: "inv_count s"
    and sto: "inv_store b db s" and lg: "inv_log s" by simp_all
  have pe: "pending s = {}" by (rule final_all_done[OF ft cnt w])
  have fini: "\<And>t x. tasks s t = Some x \<Longrightarrow> x = Done"
    using pe by (auto simp: pending_def)
  have dm: "dom (tasks s) = dom (ops b)" using str by (simp add: inv_struct_def)
  have co: "completion_order b db sched = map fst (finished s)"
    by (simp add: completion_order_def run)
  show bk: "buckets db' t = tx_bucket db (ops b) t" for t
  proof (cases "ops b t")
    case None
    with sto show ?thesis
      unfolding inv_store_def db' tx_bucket_def
      by (auto split: option.splits dest!: spec[of _ t])
  next
    case (Some os)
    from inv_storeD[OF sto Some] obtain x
      where x: "tasks s t = Some x" "task_view db (store s) t os (finished s) x" by blast
    with fini[OF x(1)] Some show ?thesis by (simp add: db' tx_bucket_def)
  qed
  have "{t. tasks s t = Some Done} = dom (tasks s)"
    using fini by (auto simp: dom_def)
  then have "{t. tasks s t = Some Done} = dom (ops b)"
    by (simp only: dm)
  with lg show ro: "range_order (ops b) (completion_order b db sched)"
    by (simp add: range_order_def co inv_log_def)
  have "\<forall>p\<in>set (finished s). snd p = tx_error db (ops b) (fst p)"
    using sto by (auto simp: inv_store_def tx_error_def)
  then have "map snd (finished s) = map (tx_error db (ops b)) (map fst (finished s))"
    by (induction "finished s") auto
  with sto show fe: "e = first_error (map (tx_error db (ops b)) (completion_order b db sched))"
    by (simp add: e co inv_store_def)
  have "\<And>t. t \<notin> dom (ops b) \<Longrightarrow> tx_error db (ops b) t = None"
    by (auto simp: tx_error_def split: option.splits)
  with ro fe show "e = None \<longleftrightarrow> (\<forall>t. tx_error db (ops b) t = None)"
    by (auto simp: first_error_None_iff range_order_def)
qed

theorem C6_ExecuteConcurrent_runs_all_returns_first_error_witness:
  "finite (dom (ops two_buckets))
   \<and> ExecuteConcurrent two_buckets empty_db
       [''a'', ''b'', ''a'', ''b'', ''a'', ''b'', ''a'', ''b'']
     = Some (Some ValueMissing, two_buckets,
             \<lparr>opened = True, buckets = [''b'' \<mapsto> [''k'' \<mapsto> ''v'']]\<rparr>)
   \<and> tx_error empty_db (ops two_buckets) ''a'' = Some ValueMissing
   \<and> tx_bucket empty_db (ops two_buckets) ''b'' = Some [''k'' \<mapsto> ''v'']
   \<and> range_order (ops two_buckets)
       (completion_order two_buckets empty_db
          [''a'', ''b'', ''a'', ''b'', ''a'', ''b'', ''a'', ''b''])
   \<and> length [''a'', ''b'', ''a'', ''b'', ''a'', ''b'', ''a'', ''b'']
       \<le> 4 * len_map (ops two_buckets)"
proof -
  let ?sched = "[''a'', ''b'', ''a'', ''b'', ''a'', ''b'', ''a'', ''b'']"
  let ?db' = "\<lparr>opened = True, buckets = [''b'' \<mapsto> [''k'' \<mapsto> ''v'']]\<rparr>"
  have fin: "finite (dom (ops two_buckets))"
    by (simp add: two_buckets_def)
  have ex: "ExecuteConcurrent two_buckets empty_db ?sched
              = Some (Some ValueMissing, two_buckets, ?db')"
    by (simp add: ExecuteConcurrent_def conc_init_def task_step_def semaphore_cap_def
        len_map_def MAX_CONCURRENT_OPERATIONS_def partition_tx_set partition_tx_nil_value
        empty_db_def two_buckets_def)
  then obtain s where run: "run_schedule (conc_init two_buckets empty_db) ?sched = Some s"
    by (auto simp: ExecuteConcurrent_def split: option.splits)
  have ta: "tx_error empty_db (ops two_buckets) ''a'' = Some ValueMissing"
    by (simp add: tx_error_def two_buckets_def empty_db_def partition_tx_nil_value)
  note C = C6_ExecuteConcurrent_runs_all_returns_first_error[OF fin, of empty_db]
  from C ex have "buckets ?db' ''b'' = tx_bucket empty_db (ops two_buckets) ''b''"
    by blast
  then have tb: "tx_bucket empty_db (ops two_buckets) ''b'' = Some [''k'' \<mapsto> ''v'']"
    by simp
  from C ex have ro: "range_order (ops two_buckets) (completion_order two_buckets empty_db ?sched)"
    by blast
  from C run have len: "length ?sched \<le> 4 * len_map (ops two_buckets)"
    by blast
  from fin ex ta tb ro len show ?thesis by (intro conjI)
qed

text \<open>
  Neither executing method writes the batch: Execute returns the batch it was given, and
  the batch is the same in every state of ExecuteConcurrent and in its result.
\<close>

lemma Execute_keeps_batch: "fst (snd (Execute b db order)) = b"
  by (simp add: Execute_def split: prod.splits)

lemma run_schedule_keeps_batch:
  assumes "run_schedule (conc_init b db) sched = Some s"
  shows "batch s = b"
proof -
  have "inv_struct b s"
    by (rule run_schedule_invariant[where P = "inv_struct b", OF assms inv_struct_init])
      (rule inv_struct_step)
  then show ?thesis by (simp add: inv_struct_def)
qed

lemma ExecuteConcurrent_keeps_batch:
  "ExecuteConcurrent b db sched = Some r \<Longrightarrow> fst (snd r) = b"
  using run_schedule_keeps_batch
  by (auto simp: ExecuteConcurrent_def split: option.splits if_splits)

text \<open>
  Claim C9, evaluated on the code. The batch holds two Set operations on users/u1
  (first "A", then "B"). Execute on the empty open store returns nil and the same batch,
  and so does ExecuteConcurrent: the queue is not cleared. A second call of either
  method, on the batch and the store as the first call left them, returns nil again and
  leaves users/u1 = "A": the second queued operation is applied by neither call, whereas
  replaying every queued operation on that store gives users/u1 = "B".
\<close>

theorem C9_second_call_skips_later_operations:
  "Execute two_sets empty_db [''users'']
     = (None, two_sets, \<lparr>opened = True, buckets = [''users'' \<mapsto> [''u1'' \<mapsto> ''A'']]\<rparr>)
   \<and> Execute (fst (snd (Execute two_sets empty_db [''users''])))
        (snd (snd (Execute two_sets empty_db [''users'']))) [''users'']
     = (None, two_sets, \<lparr>opened = True, buckets = [''users'' \<mapsto> [''u1'' \<mapsto> ''A'']]\<rparr>)
   \<and> ExecuteConcurrent two_sets empty_db [''users'', ''users'', ''users'', ''users'']
     = Some (None, two_sets,
             \<lparr>opened = True, buckets = [''users'' \<mapsto> [''u1'' \<mapsto> ''A'']]\<rparr>)
   \<and> ExecuteConcurrent two_sets
        \<lparr>opened = True, buckets = [''users'' \<mapsto> [''u1'' \<mapsto> ''A'']]\<rparr>
        [''users'', ''users'', ''users'', ''users'']
     = Some (None, two_sets,
             \<lparr>opened = True, buckets = [''users'' \<mapsto> [''u1'' \<mapsto> ''A'']]\<rparr>)
   \<and> \<not> op_applied (set_op ''users'' ''u1'' ''B'') [''u1'' \<mapsto> ''A'']
   \<and> replay_all [''u1'' \<mapsto> ''A'']
        [set_op ''users'' ''u1'' ''A'', set_op ''users'' ''u1'' ''B'']
     = [''u1'' \<mapsto> ''B'']"
proof -
  let ?dbA = "\<lparr>opened = True, buckets = [''users'' \<mapsto> [''u1'' \<mapsto> ''A'']]\<rparr>"
  have tx0: "partition_tx empty_db ''users''
        [set_op ''users'' ''u1'' ''A'', set_op ''users'' ''u1'' ''B''] = (None, ?dbA)"
    by (simp add: partition_tx_set empty_db_def)
  have txA: "partition_tx ?dbA ''users''
        [set_op ''users'' ''u1'' ''A'', set_op ''users'' ''u1'' ''B''] = (None, ?dbA)"
    by (simp add: partition_tx_set)
  have e1: "Execute two_sets empty_db [''users''] = (None, two_sets, ?dbA)"
    by (simp add: Execute_def two_sets_def tx0)
  have "Execute two_sets ?dbA [''users''] = (None, two_sets, ?dbA)"
    by (simp add: Execute_def two_sets_def txA)
  with e1 have e2: "Execute (fst (snd (Execute two_sets empty_db [''users''])))
        (snd (snd (Execute two_sets empty_db [''users'']))) [''users'']
     = (None, two_sets, ?dbA)"
    by simp
  have c1: "ExecuteConcurrent two_sets empty_db [''users'', ''users'', ''users'', ''users'']
     = Some (None, two_sets, ?dbA)"
    by (simp add: ExecuteConcurrent_def conc_init_def task_step_def semaphore_cap_def
        len_map_def MAX_CONCURRENT_OPERATIONS_def partition_tx_set empty_db_def two_sets_def)
  have c2: "ExecuteConcurrent two_sets ?dbA [''users'', ''users'', ''users'', ''users'']
     = Some (None, two_sets, ?dbA)"
    by (simp add: ExecuteConcurrent_def conc_init_def task_step_def semaphore_cap_def
        len_map_def MAX_CONCURRENT_OPERATIONS_def partition_tx_set two_sets_def)
  have na: "\<not> op_applied (set_op ''users'' ''u1'' ''B'') [''u1'' \<mapsto> ''A'']"
    by (simp add: op_applied_def)
  have rp: "replay_all [''u1'' \<mapsto> ''A'']
        [set_op ''users'' ''u1'' ''A'', set_op ''users'' ''u1'' ''B''] = [''u1'' \<mapsto> ''B'']"
    by simp
  from e1 e2 c1 c2 na rp show ?thesis by (intro conjI)
qed

end
